theory Spec2Isabelle
  imports Main "HOL-Library.Word" "HOL-Library.Code_Target_Nat"
begin

unbundle bit_operations_syntax

section \<open>Bytes, files and C strings\<close>

text \<open>
  A file or an in-memory buffer is the list of its bytes (\<open>unsigned char\<close>).
  File offsets (\<open>long\<close>) are never negative in the code below and are natural numbers;
  the loop guards that subtract from a \<open>long\<close> are written over \<open>int\<close>.
  Values of type \<open>size_t\<close> are natural numbers below \<open>2^64\<close>; a subtraction on them
  wraps around, and that is written out in \<open>size_sub\<close>.
\<close>

type_synonym byte = "8 word"

definition bytes_of :: "string \<Rightarrow> byte list" where
  "bytes_of s = map of_char s"

definition size_sub :: "nat \<Rightarrow> nat \<Rightarrow> nat" where
  "size_sub a b = (a + 2 ^ 64 - b) mod 2 ^ 64"

lemma size_sub_le: "b \<le> a \<Longrightarrow> a < 2 ^ 64 \<Longrightarrow> size_sub a b = a - b"
proof -
  assume le: "b \<le> a" and lt: "a < 2 ^ 64"
  from le have "a + 2 ^ 64 - b = (a - b) + 2 ^ 64"
    by simp
  moreover from lt have "a - b < 2 ^ 64"
    by (rule less_imp_diff_less)
  ultimately show ?thesis
    unfolding size_sub_def by (simp only: mod_add_self2 mod_less)
qed

text \<open>\<open>fseek(file, offset, SEEK_SET)\<close> followed by \<open>fread(buf, 1, n, file)\<close>: the bytes
  delivered, fewer than \<open>n\<close> at the end of the file.\<close>

definition fread :: "byte list \<Rightarrow> nat \<Rightarrow> nat \<Rightarrow> byte list" where
  "fread file offset n = take n (drop offset file)"

text \<open>\<open>memcmp(data + i, lit, length lit) == 0\<close> inside a buffer.\<close>

definition memeq :: "byte list \<Rightarrow> nat \<Rightarrow> byte list \<Rightarrow> bool" where
  "memeq data i lit = (take (length lit) (drop i data) = lit)"

section \<open>acd\_extractor.c: payload classification\<close>

datatype classification = Text | Xml | Binary

text \<open>The body of the preview loop: a byte outside \<open>0x20..0x7E\<close> that is not
  line feed, carriage return or tab clears \<open>printable\<close>.\<close>

definition unprintable :: "byte \<Rightarrow> bool" where
  "unprintable b = ((b < 0x20 \<or> b > 0x7E) \<and> (b \<noteq> 0x0A \<and> b \<noteq> 0x0D \<and> b \<noteq> 0x09))"

text \<open>\<open>for (i = 0; i < 50 && i < decomp_size; i++)\<close> with its \<open>break\<close>; the first
  argument counts the iterations that are left.\<close>

fun printable_loop :: "nat \<Rightarrow> byte list \<Rightarrow> bool" where
  "printable_loop 0 payload = True"
| "printable_loop (Suc n) payload =
     (case payload of
        [] \<Rightarrow> True
      | b # bs \<Rightarrow> if unprintable b then False else printable_loop n bs)"

definition printable :: "byte list \<Rightarrow> bool" where
  "printable payload = printable_loop 50 payload"

text \<open>\<open>decomp_size > 5 && memcmp(decompressed, "<?xml", 5) == 0\<close>.\<close>

definition xml_detected :: "byte list \<Rightarrow> bool" where
  "xml_detected payload = (length payload > 5 \<and> memeq payload 0 (bytes_of ''<?xml''))"

text \<open>The tags the decoder reports for a payload: the preview is either the text or
  \<open>[Binary data]\<close>, and the XML test is made independently of it.\<close>

definition classify :: "byte list \<Rightarrow> classification list" where
  "classify payload =
     (if printable payload \<and> length payload > 0 then [Text] else [Binary])
     @ (if xml_detected payload then [Xml] else [])"

section \<open>acd\_extractor.c: the per-offset decoder\<close>

text \<open>
  zlib and the file system are outside the repository. They are parameters of the
  decoder: the status \<open>inflateInit2\<close> returns, what \<open>inflate\<close> does with the bytes it
  is given (its status, \<open>total_in\<close>, and the bytes it has written to the output buffer),
  and whether \<open>fopen\<close> succeeds for an artifact.
\<close>

definition Z_OK :: int where "Z_OK = 0"
definition Z_STREAM_END :: int where "Z_STREAM_END = 1"
definition Z_DATA_ERROR :: int where "Z_DATA_ERROR = - 3"
definition Z_BUF_ERROR :: int where "Z_BUF_ERROR = - 5"

definition MAX_DECOMP_SIZE :: nat where "MAX_DECOMP_SIZE = 10 * 1024 * 1024"

datatype artifact_kind = BinFile | XmlFile

record artifact =
  kind :: artifact_kind
  block_num :: nat
  at_offset :: nat
  content :: "byte list"

datatype report =
    Decompressed nat nat nat
  | Preview "classification list"
  | DecompressionFailed nat int

record env =
  inflateInit2 :: int
  inflate :: "byte list \<Rightarrow> int \<times> nat \<times> byte list"
  fopen_ok :: "artifact_kind \<Rightarrow> nat \<Rightarrow> nat \<Rightarrow> bool"

record decoded =
  ret :: int
  decomp_size :: nat
  artifacts :: "artifact list"
  reports :: "report list"

definition failed :: decoded where
  "failed = \<lparr>ret = - 1, decomp_size = 0, artifacts = [], reports = []\<rparr>"

text \<open>What is written and printed once \<open>inflate\<close> has returned \<open>Z_STREAM_END\<close> or
  \<open>Z_OK\<close>: nothing when the \<open>.bin\<close> file cannot be opened.\<close>

definition save_block :: "env \<Rightarrow> nat \<Rightarrow> nat \<Rightarrow> nat \<Rightarrow> byte list \<Rightarrow> artifact list \<times> report list" where
  "save_block e offset num total_in decompressed =
     (if fopen_ok e BinFile num offset then
        ([\<lparr>kind = BinFile, block_num = num, at_offset = offset, content = decompressed\<rparr>]
         @ (if xml_detected decompressed \<and> fopen_ok e XmlFile num offset
            then [\<lparr>kind = XmlFile, block_num = num, at_offset = offset, content = decompressed\<rparr>]
            else []),
         [Decompressed num total_in (length decompressed), Preview (classify decompressed)])
      else ([], []))"

definition extract_gzip_block :: "env \<Rightarrow> byte list \<Rightarrow> nat \<Rightarrow> nat \<Rightarrow> decoded" where
  "extract_gzip_block e file offset num =
     (let header = fread file offset 10 in
      if length header \<noteq> 10 then failed
      else if header ! 0 \<noteq> 0x1F \<or> header ! 1 \<noteq> 0x8B then failed
      else
        let compressed = fread file offset (1024 * 1024) in
        if inflateInit2 e \<noteq> Z_OK then failed
        else
          let (status, total_in, out) = inflate e compressed;
              decompressed = take MAX_DECOMP_SIZE out;
              size = length decompressed;
              (files, msgs) =
                (if status = Z_STREAM_END \<or> status = Z_OK
                 then save_block e offset num total_in decompressed
                 else ([], [DecompressionFailed num status]))
          in \<lparr>ret = (if size > 0 then 0 else - 1), decomp_size = size,
               artifacts = files, reports = msgs\<rparr>)"

section \<open>acd\_extractor.c: the preamble splitter\<close>

text \<open>\<open>fgets(line, n, file)\<close> reads at most \<open>n - 1\<close> bytes and stops after a line
  feed; it returns \<open>NULL\<close> (here \<open>None\<close>) when the file is at its end. The result is the
  bytes stored in \<open>line\<close> before the terminating zero, and the new file position.\<close>

fun take_line :: "nat \<Rightarrow> byte list \<Rightarrow> byte list" where
  "take_line 0 rest = []"
| "take_line (Suc n) rest =
     (case rest of
        [] \<Rightarrow> []
      | b # bs \<Rightarrow> if b = 0x0A then [b] else b # take_line n bs)"

lemma take_line_nonempty: "0 < n \<Longrightarrow> bs \<noteq> [] \<Longrightarrow> take_line n bs \<noteq> []"
  by (cases n; cases bs) auto

definition fgets :: "nat \<Rightarrow> byte list \<Rightarrow> nat \<Rightarrow> (byte list \<times> nat) option" where
  "fgets n file pos =
     (if pos < length file
      then (let chunk = take_line (n - 1) (drop pos file) in Some (chunk, pos + length chunk))
      else None)"

text \<open>\<open>strlen(line)\<close>: the string functions of C see the buffer up to its first zero
  byte, which is the terminator only when the bytes read hold no zero themselves.\<close>

definition strlen :: "byte list \<Rightarrow> nat" where
  "strlen line = length (takeWhile (\<lambda>b. b \<noteq> 0) line)"

definition control_byte :: "byte \<Rightarrow> bool" where
  "control_byte b = (b < 0x20 \<and> b \<noteq> 0x0D \<and> b \<noteq> 0x0A \<and> b \<noteq> 0x09)"

text \<open>\<open>for (int i = 0; line[i]; i++)\<close> with its \<open>break\<close>: the loop ends at a zero byte.\<close>

fun is_binary :: "byte list \<Rightarrow> bool" where
  "is_binary [] = False"
| "is_binary (b # bs) =
     (if b = 0 then False else if control_byte b then True else is_binary bs)"

text \<open>The \<open>while (fgets(...))\<close> loop of \<open>main\<close>; \<open>binary_start\<close> keeps its initial 0
  when no line is found binary.\<close>

function find_binary_start :: "byte list \<Rightarrow> nat \<Rightarrow> nat" where
  "find_binary_start file pos =
     (case fgets 1024 file pos of
        None \<Rightarrow> 0
      | Some (line, pos') \<Rightarrow>
          if is_binary line then pos' - strlen line
          else find_binary_start file pos')"
  by pat_completeness auto
termination
proof (relation "measure (\<lambda>(file, pos). length file - pos)")
  fix bs :: "byte list" and pos x2 line pos'
  assume "fgets 1024 bs pos = Some x2" and "(line, pos') = x2"
  then have "pos < length bs" and "pos' = pos + length (take_line 1023 (drop pos bs))"
    by (auto simp: fgets_def Let_def split: if_splits)
  with take_line_nonempty [of 1023 "drop pos bs"]
  show "((bs, pos'), (bs, pos)) \<in> measure (\<lambda>(file, pos). length file - pos)"
    by (cases "take_line 1023 (drop pos bs)") auto
qed simp

section \<open>acd\_parser.c: the preamble splitter\<close>

text \<open>\<open>for (int i = 0; buffer[i] && buffer[i] != '\n'; i++)\<close> with its \<open>break\<close>.\<close>

fun not_text :: "byte list \<Rightarrow> bool" where
  "not_text [] = False"
| "not_text (b # bs) =
     (if b = 0 \<or> b = 0x0A then False else if control_byte b then True else not_text bs)"

text \<open>\<open>read_text_header\<close>: \<open>pos\<close> is the file position before the line just read;
  \<open>acd->binary_start\<close> keeps its initial 0 when every line is text.\<close>

function read_text_header :: "byte list \<Rightarrow> nat \<Rightarrow> nat" where
  "read_text_header file pos =
     (case fgets 4096 file pos of
        None \<Rightarrow> 0
      | Some (buffer, pos') \<Rightarrow>
          if not_text buffer then pos
          else read_text_header file pos')"
  by pat_completeness auto
termination
proof (relation "measure (\<lambda>(file, pos). length file - pos)")
  fix bs :: "byte list" and pos x2 buffer pos'
  assume "fgets 4096 bs pos = Some x2" and "(buffer, pos') = x2"
  then have "pos < length bs" and "pos' = pos + length (take_line 4095 (drop pos bs))"
    by (auto simp: fgets_def Let_def split: if_splits)
  with take_line_nonempty [of 4095 "drop pos bs"]
  show "((bs, pos'), (bs, pos)) \<in> measure (\<lambda>(file, pos). length file - pos)"
    by (cases "take_line 4095 (drop pos bs)") auto
qed simp

section \<open>acd\_extractor.c: the segment scanner\<close>

text \<open>
  A read outside an array is undefined behaviour in C. The model stops there with a
  fault, so that every read the code makes is either inside its array or a visible
  branch of the model.
\<close>

datatype fault = OutOfBounds

text \<open>\<open>block_count\<close>, and the decoder calls made so far with the offset and the block
  number each was given and what it returned (the caller discards the return value).\<close>

record scan_state =
  block_count :: nat
  calls :: "(nat \<times> nat \<times> decoded) list"

text \<open>The inner \<open>for (size_t i = 0; i < bytes_read - 10; i++)\<close> over the 4096-byte
  \<open>buffer\<close>, from index \<open>i\<close> on; \<open>bound\<close> is \<open>bytes_read - 10\<close>. The Boolean of the
  result says whether the loop was left by \<open>goto done\<close>.\<close>

function scan_window ::
  "env \<Rightarrow> byte list \<Rightarrow> byte list \<Rightarrow> nat \<Rightarrow> nat \<Rightarrow> nat \<Rightarrow> scan_state \<Rightarrow> fault + (scan_state \<times> bool)"
where
  "scan_window e file buffer offset bound i st =
     (if i < bound then
        if length buffer \<le> i then Inl OutOfBounds
        else if buffer ! i = 0x1F then
          if length buffer \<le> i + 1 then Inl OutOfBounds
          else if buffer ! (i + 1) = 0x8B then
            let n = block_count st + 1;
                r = extract_gzip_block e file (offset + i) n;
                st' = \<lparr>block_count = n, calls = calls st @ [(offset + i, n, r)]\<rparr>
            in if n \<ge> 20 then Inr (st', True)
               else scan_window e file buffer offset bound (i + 1) st'
          else scan_window e file buffer offset bound (i + 1) st
        else scan_window e file buffer offset bound (i + 1) st
      else Inr (st, False))"
  by pat_completeness auto
termination
  by (relation "measure (\<lambda>(e, file, buffer, offset, bound, i, st). length buffer - i)") auto

text \<open>The outer \<open>while (offset < file_size - 10)\<close>. \<open>fread\<close> overwrites the first
  \<open>bytes_read\<close> bytes of \<open>buffer\<close> and leaves the rest as it was. Under the guard
  \<open>fread\<close> delivers more than ten bytes, so \<open>offset += bytes_read - 10\<close> adds a positive
  number of at most 4086. The result carries whether scanning was cut short by
  \<open>goto done\<close>.\<close>

function scan_loop ::
  "env \<Rightarrow> byte list \<Rightarrow> byte list \<Rightarrow> nat \<Rightarrow> scan_state \<Rightarrow> fault + (scan_state \<times> bool)"
where
  "scan_loop e file buffer offset st =
     (if int offset < int (length file) - 10 then
        let window = fread file offset 4096;
            bytes_read = length window;
            buffer' = window @ drop bytes_read buffer
        in case scan_window e file buffer' offset (size_sub bytes_read 10) 0 st of
             Inl f \<Rightarrow> Inl f
           | Inr (st', stop) \<Rightarrow>
               if stop then Inr (st', True)
               else scan_loop e file buffer' (offset + size_sub bytes_read 10) st'
      else Inr (st, False))"
  by pat_completeness auto
termination
proof (relation "measure (\<lambda>(e, file, buffer, offset, st). length file - offset)", goal_cases)
  case 1
  show ?case by simp
next
  case (2 e bs buffer offset st window bytes_read buffer' x2 st' stop)
  from 2(1,2,3) have "10 < bytes_read" "bytes_read \<le> 4096"
    by (auto simp: fread_def)
  then have "size_sub bytes_read 10 = bytes_read - 10"
    by (intro size_sub_le) simp_all
  with \<open>10 < bytes_read\<close> 2(1) show ?case
    by simp
qed

text \<open>The scanning part of \<open>main\<close>: \<open>buffer\<close> is an uninitialised array of 4096 bytes,
  whose content at entry is the parameter \<open>buffer0\<close>.\<close>

definition scan_segments ::
  "env \<Rightarrow> byte list \<Rightarrow> byte list \<Rightarrow> nat \<Rightarrow> fault + (scan_state \<times> bool)" where
  "scan_segments e file buffer0 binary_start =
     scan_loop e file buffer0 binary_start \<lparr>block_count = 0, calls = []\<rparr>"

text \<open>\<open>main\<close> from the preamble loop to \<open>done\<close>: the scan starts at the offset the
  preamble splitter has computed.\<close>

definition extractor_main :: "env \<Rightarrow> byte list \<Rightarrow> byte list \<Rightarrow> fault + (scan_state \<times> bool)" where
  "extractor_main e file buffer0 = scan_segments e file buffer0 (find_binary_start file 0)"

section \<open>acd\_parser.c: the segment scanner\<close>

text \<open>What \<open>find_compressed_blocks\<close> prints for a hit: the block offset, the method
  byte and the flags byte. (The trial decompression of 100 bytes only adds a line of
  output and is left out.)\<close>

record block_hit =
  block_offset :: nat
  cm_method :: byte
  flags :: byte

text \<open>The inner \<open>for\<close> loop of \<open>find_compressed_blocks\<close>; the Boolean of the result says
  whether the function returned from inside the loop (\<open>block_count >= 10\<close>).\<close>

function find_window ::
  "byte list \<Rightarrow> nat \<Rightarrow> nat \<Rightarrow> nat \<Rightarrow> block_hit list \<Rightarrow> fault + (block_hit list \<times> bool)"
where
  "find_window buffer offset bound i hits =
     (if i < bound then
        if length buffer \<le> i then Inl OutOfBounds
        else if buffer ! i = 0x1F then
          if length buffer \<le> i + 1 then Inl OutOfBounds
          else if buffer ! (i + 1) = 0x8B then
            if length buffer \<le> i + 3 then Inl OutOfBounds
            else
              let hits' = hits @ [\<lparr>block_offset = offset + i, cm_method = buffer ! (i + 2),
                                    flags = buffer ! (i + 3)\<rparr>]
              in if length hits' \<ge> 10 then Inr (hits', True)
                 else find_window buffer offset bound (i + 1) hits'
          else find_window buffer offset bound (i + 1) hits
        else find_window buffer offset bound (i + 1) hits
      else Inr (hits, False))"
  by pat_completeness auto
termination
  by (relation "measure (\<lambda>(buffer, offset, bound, i, hits). length buffer - i)") auto

text \<open>The outer \<open>while (offset < acd->file_size - 2)\<close>. Nothing in the code bounds the
  number of its iterations, so the model counts them down from \<open>fuel\<close>: \<open>None\<close> says
  that the loop is still running when the fuel is used up. \<open>block_count\<close> is the number
  of hits.\<close>

fun find_blocks_loop ::
  "nat \<Rightarrow> byte list \<Rightarrow> byte list \<Rightarrow> nat \<Rightarrow> block_hit list \<Rightarrow> (fault + block_hit list) option"
where
  "find_blocks_loop 0 file buffer offset hits = None"
| "find_blocks_loop (Suc fuel) file buffer offset hits =
     (if int offset < int (length file) - 2 then
        let window = fread file offset 4096;
            bytes_read = length window;
            buffer' = window @ drop bytes_read buffer
        in case find_window buffer' offset (size_sub bytes_read 10) 0 hits of
             Inl f \<Rightarrow> Some (Inl f)
           | Inr (hits', returned) \<Rightarrow>
               if returned then Some (Inr hits')
               else find_blocks_loop fuel file buffer'
                      ((offset + size_sub bytes_read 10) mod 2 ^ 64) hits'
      else Some (Inr hits))"

definition find_compressed_blocks ::
  "nat \<Rightarrow> byte list \<Rightarrow> byte list \<Rightarrow> nat \<Rightarrow> (fault + block_hit list) option" where
  "find_compressed_blocks fuel file buffer0 binary_start =
     find_blocks_loop fuel file buffer0 binary_start []"

section \<open>comprehensive\_acd\_parser.c: component recovery\<close>

definition MAX_COMPONENTS :: nat where "MAX_COMPONENTS = 10000"
definition MAX_STRING_LEN :: nat where "MAX_STRING_LEN = 256"

record component =
  uid :: "32 word"
  name :: "byte list"
  ioi :: "byte list"
  parent_uid :: "32 word"
  ordinal :: "32 word"
  type :: "byte list"

text \<open>\<open>read_string\<close>: the loop \<open>while (i < MAX_STRING_LEN - 1 && i < max_len &&
  data[offset + i] != 0)\<close>; the first argument of \<open>read_string_from\<close> counts the
  iterations the first two tests allow, the second is the data from \<open>offset + i\<close> on.\<close>

fun read_string_from :: "nat \<Rightarrow> byte list \<Rightarrow> fault + byte list" where
  "read_string_from 0 rest = Inr []"
| "read_string_from (Suc n) rest =
     (case rest of
        [] \<Rightarrow> Inl OutOfBounds
      | b # bs \<Rightarrow>
          if b = 0 then Inr []
          else case read_string_from n bs of Inl f \<Rightarrow> Inl f | Inr s \<Rightarrow> Inr (b # s))"

definition read_string :: "byte list \<Rightarrow> nat \<Rightarrow> nat \<Rightarrow> fault + byte list" where
  "read_string data offset max_len =
     read_string_from (min (MAX_STRING_LEN - 1) max_len) (drop offset data)"

definition read_uint32_le :: "byte list \<Rightarrow> nat \<Rightarrow> fault + 32 word" where
  "read_uint32_le data offset =
     (if offset + 3 < length data then
        Inr (ucast (data ! offset)
             OR push_bit 8 (ucast (data ! (offset + 1)))
             OR push_bit 16 (ucast (data ! (offset + 2)))
             OR push_bit 24 (ucast (data ! (offset + 3))))
      else Inl OutOfBounds)"

text \<open>The field-name loop of \<open>parse_comps_database\<close>:
  \<open>while (offset < data_size && field_count < 20)\<close>. It returns the offset after the
  table and the names read.\<close>

function read_fields ::
  "byte list \<Rightarrow> nat \<Rightarrow> byte list list \<Rightarrow> fault + (nat \<times> byte list list)" where
  "read_fields data offset field_names =
     (if offset < length data \<and> length field_names < 20 then
        case read_string data offset 50 of
          Inl f \<Rightarrow> Inl f
        | Inr field \<Rightarrow>
            if length field = 0 then Inr (offset, field_names)
            else read_fields data (offset + length field + 1) (field_names @ [field])
      else Inr (offset, field_names))"
  by pat_completeness auto
termination
  by (relation "measure (\<lambda>(data, offset, ns). 20 - length ns)") auto

text \<open>The marker loop \<open>for (size_t i = offset; i < data_size - 10; i++)\<close>: every
  \<open>".dat"\<close> sets \<open>dat_offset\<close> anew, the first \<open>".idx"\<close> ends the loop. Both are
  \<open>memcmp\<close> calls over 4 bytes from \<open>data + i\<close>. The result is
  \<open>(dat_offset, idx_offset)\<close>.\<close>

function find_sections :: "byte list \<Rightarrow> nat \<Rightarrow> nat \<Rightarrow> fault + (nat \<times> nat)" where
  "find_sections data i dat_offset =
     (if i < size_sub (length data) 10 then
        if length data < i + 4 then Inl OutOfBounds
        else
          let dat_offset' = (if memeq data i (bytes_of ''.dat'') then i + 8 else dat_offset)
          in if memeq data i (bytes_of ''.idx'') then Inr (dat_offset', i + 8)
             else find_sections data (i + 1) dat_offset'
      else Inr (dat_offset, 0))"
  by pat_completeness auto
termination
  by (relation "measure (\<lambda>(data, i, dat_offset). length data - i)") auto

text \<open>The name search \<open>for (size_t j = name_offset; j < current + record_size &&
  j < data_size - 50; j++)\<close> with \<open>record_size = 100\<close>: the position and the text of the
  first string that starts at a byte in \<open>'A'..'z'\<close> and has more than 3 and fewer than
  40 bytes, if there is one.\<close>

function find_name ::
  "byte list \<Rightarrow> nat \<Rightarrow> nat \<Rightarrow> fault + (nat \<times> byte list) option" where
  "find_name data current j =
     (if j < current + 100 \<and> j < size_sub (length data) 50 then
        if length data \<le> j then Inl OutOfBounds
        else if data ! j \<ge> 0x41 \<and> data ! j \<le> 0x7A then
          case read_string data j 50 of
            Inl f \<Rightarrow> Inl f
          | Inr potential_name \<Rightarrow>
              if length potential_name > 3 \<and> length potential_name < 40
              then Inr (Some (j, potential_name))
              else find_name data current (j + 1)
        else find_name data current (j + 1)
      else Inr None)"
  by pat_completeness auto
termination
  by (relation "measure (\<lambda>(data, current, j). current + 100 - j)") auto


text \<open>\<open>Component comp = {0}\<close> with \<open>uid\<close> and \<open>name\<close> filled in.\<close>

definition new_component :: "32 word \<Rightarrow> byte list \<Rightarrow> component" where
  "new_component u n =
     \<lparr>uid = u, name = n, ioi = [], parent_uid = 0, ordinal = 0, type = []\<rparr>"

text \<open>
  The record loop \<open>while (current < data_size - record_size && component_count <
  MAX_COMPONENTS)\<close>. The global array \<open>components\<close> with its counter
  \<open>component_count\<close> is the list \<open>comps\<close>, which the loop extends. The result is the
  list when the loop ends, and the fault, if a read outside \<open>data\<close> ended it.
\<close>

lemma read_uint32_le_in_bounds: "read_uint32_le data offset = Inr v \<Longrightarrow> offset + 3 < length data"
  by (simp add: read_uint32_le_def split: if_splits)

function parse_records ::
  "byte list \<Rightarrow> nat \<Rightarrow> component list \<Rightarrow> component list \<times> fault option" where
  "parse_records data current comps =
     (if current < size_sub (length data) 100 \<and> length comps < MAX_COMPONENTS then
        case read_uint32_le data current of
          Inl f \<Rightarrow> (comps, Some f)
        | Inr potential_uid \<Rightarrow>
            if potential_uid > 0 \<and> potential_uid < 0x10000 then
              case find_name data current (current + 4) of
                Inl f \<Rightarrow> (comps, Some f)
              | Inr None \<Rightarrow>
                  if length comps \<ge> 50 then (comps, None)
                  else parse_records data (current + 4) comps
              | Inr (Some (j, potential_name)) \<Rightarrow>
                  let comps' = comps @ [new_component potential_uid potential_name]
                  in if length comps' \<ge> 50 then (comps', None)
                     else parse_records data (j + length potential_name + 20 + 4) comps'
            else if length comps \<ge> 50 then (comps, None)
                 else parse_records data (current + 4) comps
      else (comps, None))"
  by pat_completeness auto
termination
proof (relation "measures [\<lambda>(data, current, comps). MAX_COMPONENTS - length comps,
                              \<lambda>(data, current, comps). length data - current]",
       goal_cases)
  case 1
  show ?case by simp
next
  case (2 data current comps b ba)
  from 2(2) have "current + 3 < length data"
    by (rule read_uint32_le_in_bounds)
  then show ?case by simp
next
  case (3 data current comps b ba x2 x y xa)
  from 3(1) 3(7) show ?case by auto
next
  case (4 data current comps b)
  from 4(2) have "current + 3 < length data"
    by (rule read_uint32_le_in_bounds)
  then show ?case by simp
qed


text \<open>\<open>parse_comps_database(data, data_size, start_offset)\<close>, entered with the global
  list \<open>comps\<close>.\<close>

definition parse_comps_database ::
  "byte list \<Rightarrow> nat \<Rightarrow> component list \<Rightarrow> component list \<times> fault option" where
  "parse_comps_database data start_offset comps =
     (case read_fields data (start_offset + 6) [] of
        Inl f \<Rightarrow> (comps, Some f)
      | Inr (offset, field_names) \<Rightarrow>
          (case find_sections data offset 0 of
             Inl f \<Rightarrow> (comps, Some f)
           | Inr (dat_offset, idx_offset) \<Rightarrow>
               if dat_offset > 0 then parse_records data dat_offset comps
               else (comps, None)))"

text \<open>The marker search of \<open>main\<close>: \<open>for (size_t i = 0; i < file_size - 5; i++)\<close>;
  \<open>comps_offset\<close> is 0 when the loop ends without a match.\<close>

function find_comps :: "byte list \<Rightarrow> nat \<Rightarrow> fault + nat" where
  "find_comps data i =
     (if i < size_sub (length data) 5 then
        if length data < i + 5 then Inl OutOfBounds
        else if memeq data i (bytes_of ''Comps'') then Inr i
        else find_comps data (i + 1)
      else Inr 0)"
  by pat_completeness auto
termination
  by (relation "measure (\<lambda>(data, i). length data - i)") auto

text \<open>Component recovery as \<open>main\<close> runs it on the bytes of the block file, from the
  empty global list.\<close>

definition recover_components :: "byte list \<Rightarrow> component list \<times> fault option" where
  "recover_components data =
     (case find_comps data 0 of
        Inl f \<Rightarrow> ([], Some f)
      | Inr comps_offset \<Rightarrow>
          if comps_offset > 0 then parse_comps_database data comps_offset []
          else ([], None))"

section \<open>Specification functions\<close>

text \<open>The two-byte signature \<open>0x1F 0x8B\<close> at position \<open>i\<close> of a byte sequence, and the
  positions of a file from \<open>binary_start\<close> on that carry it and have more than ten bytes
  of the file from them on.\<close>

definition magic_at :: "byte list \<Rightarrow> nat \<Rightarrow> bool" where
  "magic_at bs i = (bs ! i = 0x1F \<and> bs ! (i + 1) = 0x8B)"

definition magic_offsets :: "byte list \<Rightarrow> nat \<Rightarrow> nat list" where
  "magic_offsets file binary_start =
     filter (magic_at file) [binary_start ..< length file - 10]"

text \<open>The decoder calls of a scan over a given list of candidate offsets: every
  candidate is numbered and decoded, and the twentieth ends the scan.\<close>

fun visit :: "env \<Rightarrow> byte list \<Rightarrow> nat list \<Rightarrow> scan_state \<Rightarrow> scan_state \<times> bool" where
  "visit e file [] st = (st, False)"
| "visit e file (off # offs) st =
     (let n = block_count st + 1;
          st' = \<lparr>block_count = n,
                 calls = calls st @ [(off, n, extract_gzip_block e file off n)]\<rparr>
      in if n \<ge> 20 then (st', True) else visit e file offs st')"



text \<open>A text byte, as the specification of the preamble splitter has it, and a text
  line: text bytes up to and including the first line feed.\<close>

definition text_byte :: "byte \<Rightarrow> bool" where
  "text_byte b = (b \<ge> 0x20 \<or> b = 0x0D \<or> b = 0x0A \<or> b = 0x09)"

definition text_line :: "byte list \<Rightarrow> bool" where
  "text_line l = (l \<noteq> [] \<and> last l = 0x0A \<and> 0x0A \<notin> set (butlast l) \<and> list_all text_byte l)"

text \<open>The acceptance tests of the record loop, as a predicate on a component.\<close>

definition plausible :: "component \<Rightarrow> bool" where
  "plausible c = (uid c \<noteq> 0 \<and> uid c < 0x10000 \<and> 3 < length (name c) \<and> length (name c) < 40)"

section \<open>Concrete inputs\<close>

text \<open>A zlib that rejects every stream without output and opens every artifact.\<close>

definition rejecting_env :: env where
  "rejecting_env = \<lparr>inflateInit2 = Z_OK, inflate = (\<lambda>input. (Z_DATA_ERROR, 0, [])),
                     fopen_ok = (\<lambda>k n offset. True)\<rparr>"

text \<open>
  Three gzip streams. Their header sets the \<open>FTEXT\<close> flag, a modification time of
  \<open>0x01010101\<close>, \<open>XFL = 1\<close> and \<open>OS = 0x0A\<close>, so that its ten bytes hold no zero byte
  and end with a line feed: the preamble splitter of acd\_extractor.c then finds the start
  of the stream.
  \<^item> \<open>letter_stream\<close>: the letter \<open>A\<close> as one fixed-Huffman block (\<open>73 04 00\<close>), with its
    CRC-32 \<open>0xD3D99E8B\<close> and its length 1;
  \<^item> \<open>cut_stream\<close>: the same stream cut after 12 bytes, where the literal \<open>A\<close> is complete
    and the end-of-block code is not;
  \<^item> \<open>empty_stream\<close>: the empty input (\<open>03 00\<close>), with CRC-32 0 and length 0.
\<close>

definition letter_stream :: "byte list" where
  "letter_stream = [0x1F, 0x8B, 0x08, 0x01, 0x01, 0x01, 0x01, 0x01, 0x01, 0x0A,
                    0x73, 0x04, 0x00, 0x8B, 0x9E, 0xD9, 0xD3, 0x01, 0x00, 0x00, 0x00]"

definition cut_stream :: "byte list" where
  "cut_stream = [0x1F, 0x8B, 0x08, 0x01, 0x01, 0x01, 0x01, 0x01, 0x01, 0x0A, 0x73, 0x04]"

definition empty_stream :: "byte list" where
  "empty_stream = [0x1F, 0x8B, 0x08, 0x01, 0x01, 0x01, 0x01, 0x01, 0x01, 0x0A,
                   0x03, 0x00, 0x00, 0x00, 0x00, 0x00, 0x00, 0x00, 0x00, 0x00]"

text \<open>
  What zlib does with these streams under \<open>inflateInit2(&strm, 16 + MAX_WBITS)\<close> and
  \<open>inflate(&strm, Z_FINISH)\<close>, as a table: a complete stream is decoded up to its trailer,
  whatever follows it (\<open>Z_STREAM_END\<close>); the cut stream gives the letter and then
  \<open>Z_BUF_ERROR\<close>, since the input ends inside the block; every other input is answered with
  \<open>Z_DATA_ERROR\<close> and no output, which is zlib's answer to the inputs below whose method
  byte is not 8. Every artifact can be opened.
\<close>

definition zlib_table :: env where
  "zlib_table =
     \<lparr>inflateInit2 = Z_OK,
      inflate = (\<lambda>input.
        if take 21 input = letter_stream then (Z_STREAM_END, 21, [0x41])
        else if take 20 input = empty_stream then (Z_STREAM_END, 20, [])
        else if input = cut_stream then (Z_BUF_ERROR, 12, [0x41])
        else (Z_DATA_ERROR, 4, [])),
      fopen_ok = (\<lambda>k n offset. True)\<rparr>"


definition two_candidates :: "byte list" where
  "two_candidates = [0x1F, 0x8B, 0x1F, 0x8B, 0x41, 0x41, 0x41, 0x41, 0x41, 0x41, 0x41, 0x41,
                     0x41, 0x41, 0x41, 0x41]"

text \<open>A signature in the last ten bytes of a file.\<close>

definition magic_in_tail :: "byte list" where
  "magic_in_tail =
     [0x41, 0x41, 0x41, 0x41, 0x41, 0x41, 0x41, 0x41, 0x41, 0x41, 0x41, 0x1F, 0x8B]"

text \<open>Fifty letters followed by a zero byte.\<close>

definition late_zero_payload :: "byte list" where
  "late_zero_payload = replicate 50 0x41 @ [0]"

text \<open>The example payload of the specification, with no padding before \<open>.dat\<close> and the
  4-byte pad after it; the same payload behind one byte and followed by 100 zero bytes;
  and the component it describes.\<close>

definition example_payload :: "byte list" where
  "example_payload =
     bytes_of ''Comps'' @ [0] @ bytes_of ''Id'' @ [0] @ bytes_of ''Name'' @ [0] @ [0]
     @ bytes_of ''.dat'' @ [0, 0, 0, 0] @ [5, 0, 0, 0] @ bytes_of ''XValve'' @ [0]"

definition embedded_payload :: "byte list" where
  "embedded_payload = [0] @ example_payload @ replicate 100 0"

definition xvalve :: component where
  "xvalve = new_component 5 (bytes_of ''XValve'')"

text \<open>A text line followed by a line that holds a zero byte; a file of ten letters.\<close>

definition nul_line_file :: "byte list" where
  "nul_line_file = [0x41, 0x0A, 0x00, 0x0A]"

definition ten_bytes :: "byte list" where
  "ten_bytes = [0x41, 0x41, 0x41, 0x41, 0x41, 0x41, 0x41, 0x41, 0x41, 0x41]"

section \<open>Evaluation rules\<close>

text \<open>The recursive equations of the loops are unfolded where a proof says so.\<close>

declare scan_window.simps [simp del] scan_loop.simps [simp del] find_window.simps [simp del]
  find_name.simps [simp del] parse_records.simps [simp del] find_sections.simps [simp del]
  read_fields.simps [simp del] find_comps.simps [simp del]
  find_binary_start.simps [simp del] read_text_header.simps [simp del]

lemma replicate_numeral: "replicate (numeral k) x = x # replicate (pred_numeral k) x"
  by (simp add: numeral_eq_Suc)

lemma take_line_numeral:
  "take_line (numeral k) rest =
     (case rest of
        [] \<Rightarrow> []
      | b # bs \<Rightarrow> if b = 0x0A then [b] else b # take_line (pred_numeral k) bs)"
  by (simp add: numeral_eq_Suc)

lemma read_string_from_numeral:
  "read_string_from (numeral k) rest =
     (case rest of
        [] \<Rightarrow> Inl OutOfBounds
      | b # bs \<Rightarrow>
          if b = 0 then Inr []
          else case read_string_from (pred_numeral k) bs of Inl f \<Rightarrow> Inl f | Inr s \<Rightarrow> Inr (b # s))"
  by (simp add: numeral_eq_Suc)

lemmas splitter_eval =
  find_binary_start.simps read_text_header.simps fgets_def take_line_numeral strlen_def
  control_byte_def Let_def

lemmas recovery_eval =
  recover_components_def parse_comps_database_def find_comps.simps read_fields.simps
  find_sections.simps parse_records.simps find_name.simps read_string_def
  read_string_from_numeral read_uint32_le_def memeq_def size_sub_def bytes_of_def
  new_component_def MAX_COMPONENTS_def MAX_STRING_LEN_def Let_def

lemma example_payload_bytes:
  "example_payload = [67, 111, 109, 112, 115, 0, 73, 100, 0, 78, 97, 109, 101, 0, 0, 46, 100,
     97, 116, 0, 0, 0, 0, 5, 0, 0, 0, 88, 86, 97, 108, 118, 101, 0]"
  by (simp add: example_payload_def bytes_of_def)

lemmas scanner_eval =
  extractor_main_def scan_segments_def scan_loop.simps scan_window.simps fread_def size_sub_def
  Let_def extract_gzip_block_def save_block_def failed_def zlib_table_def letter_stream_def
  cut_stream_def empty_stream_def Z_OK_def Z_DATA_ERROR_def Z_STREAM_END_def Z_BUF_ERROR_def
  MAX_DECOMP_SIZE_def xml_detected_def memeq_def bytes_of_def

section \<open>The payload classifier\<close>

lemma printable_loop_all:
  "printable_loop n payload = (\<forall>b \<in> set (take n payload). \<not> unprintable b)"
  by (induction n payload rule: printable_loop.induct) (auto split: list.splits)

lemma unprintable_zero: "unprintable 0"
  by (simp add: unprintable_def)

text \<open>Claim C5 as stated, that every payload containing the byte \<open>0x00\<close> at any position
  is classified Binary, fails: fifty letters followed by a zero byte contain \<open>0x00\<close> and
  are reported as text, not as binary data.\<close>

theorem classify_late_zero_counterexample:
  "0 \<in> set late_zero_payload \<and> Binary \<notin> set (classify late_zero_payload)"
proof -
  have "\<forall>b \<in> set (take 50 late_zero_payload). \<not> unprintable b"
    by (simp add: late_zero_payload_def unprintable_def)
  then have "printable late_zero_payload"
    by (simp add: printable_def printable_loop_all)
  then show ?thesis
    by (simp add: classify_def late_zero_payload_def)
qed

text \<open>Claim C5, amended: every payload that contains the byte \<open>0x00\<close> among its first 50
  bytes is classified Binary (and not Text).\<close>

theorem classify_zero_in_preview:
  "0 \<in> set (take 50 payload) \<Longrightarrow> Binary \<in> set (classify payload) \<and> Text \<notin> set (classify payload)"
proof -
  assume z: "0 \<in> set (take 50 payload)"
  with unprintable_zero have "\<not> printable payload"
    unfolding printable_def printable_loop_all by blast
  then show ?thesis
    by (simp add: classify_def)
qed

text \<open>The amended C5 at the payload \<open>A\<close>, \<open>0x00\<close>.\<close>

theorem classify_zero_in_preview_witness:
  "0 \<in> set (take 50 [0x41, 0 :: byte]) \<and> Binary \<in> set (classify [0x41, 0]) \<and> Text \<notin> set (classify [0x41, 0])"
proof -
  have h: "0 \<in> set (take 50 [0x41, 0 :: byte])"
    by simp
  from h classify_zero_in_preview [OF h] show ?thesis
    by blast
qed

text \<open>Claim C6 as stated, that every payload of length at least 5 whose first 5 bytes are
  \<open><?xml\<close> is classified Xml, fails at the 5-byte payload that is exactly \<open><?xml\<close>.\<close>

theorem xml_five_bytes_counterexample:
  "length (bytes_of ''<?xml'') \<ge> 5 \<and> take 5 (bytes_of ''<?xml'') = bytes_of ''<?xml''
   \<and> Xml \<notin> set (classify (bytes_of ''<?xml''))"
  by (simp add: classify_def xml_detected_def bytes_of_def)

text \<open>Claim C6, amended: every payload of more than 5 bytes whose first 5 bytes are
  \<open><?xml\<close> is classified Xml.\<close>

theorem xml_longer_than_marker:
  "length payload > 5 \<Longrightarrow> take 5 payload = bytes_of ''<?xml'' \<Longrightarrow> Xml \<in> set (classify payload)"
proof -
  assume len: "length payload > 5" and pre: "take 5 payload = bytes_of ''<?xml''"
  have "length (bytes_of ''<?xml'') = 5"
    by (simp add: bytes_of_def)
  with pre have "memeq payload 0 (bytes_of ''<?xml'')"
    by (simp add: memeq_def)
  with len show ?thesis
    by (simp add: classify_def xml_detected_def)
qed

text \<open>The amended C6 at the 6-byte payload \<open><?xml\<close> followed by a space.\<close>

theorem xml_longer_than_marker_witness:
  "length (bytes_of ''<?xml '') > 5 \<and> take 5 (bytes_of ''<?xml '') = bytes_of ''<?xml''
   \<and> Xml \<in> set (classify (bytes_of ''<?xml ''))"
proof -
  have h1: "length (bytes_of ''<?xml '') > 5"
    by (simp add: bytes_of_def)
  have h2: "take 5 (bytes_of ''<?xml '') = bytes_of ''<?xml''"
    by (simp add: bytes_of_def)
  from h1 h2 xml_longer_than_marker [OF h1 h2] show ?thesis
    by blast
qed

section \<open>The per-offset decoder\<close>

text \<open>Claim C10: the decoder returns 0 exactly when the number of decompressed bytes is
  greater than zero, that is, when the ten header bytes are read and carry the signature,
  \<open>inflateInit2\<close> succeeds and \<open>inflate\<close> has written at least one byte; in every other
  case it returns \<open>-1\<close>. With output written, the return value is 0 both when \<open>inflate\<close>
  returned an error status, the failed decompression is reported and no artifact is
  written, and when \<open>inflate\<close> returned \<open>Z_STREAM_END\<close> or \<open>Z_OK\<close> and the \<open>.bin\<close>
  artifact is written with the decompressed bytes: the return value alone does not tell
  the two apart.\<close>

theorem extract_gzip_block_ret:
  "ret (extract_gzip_block e file offset num) =
     (if length (fread file offset 10) = 10
         \<and> fread file offset 10 ! 0 = 0x1F \<and> fread file offset 10 ! 1 = 0x8B
         \<and> inflateInit2 e = Z_OK
         \<and> snd (snd (inflate e (fread file offset (1024 * 1024)))) \<noteq> []
      then 0 else - 1)
   \<and> (length (fread file offset 10) = 10
        \<and> fread file offset 10 ! 0 = 0x1F \<and> fread file offset 10 ! 1 = 0x8B
        \<and> inflateInit2 e = Z_OK
        \<and> inflate e (fread file offset (1024 * 1024)) = (status, total_in, out)
        \<and> out \<noteq> [] \<and> status \<noteq> Z_STREAM_END \<and> status \<noteq> Z_OK
      \<longrightarrow> ret (extract_gzip_block e file offset num) = 0
          \<and> artifacts (extract_gzip_block e file offset num) = []
          \<and> reports (extract_gzip_block e file offset num) = [DecompressionFailed num status])
   \<and> (length (fread file offset 10) = 10
        \<and> fread file offset 10 ! 0 = 0x1F \<and> fread file offset 10 ! 1 = 0x8B
        \<and> inflateInit2 e = Z_OK
        \<and> inflate e (fread file offset (1024 * 1024)) = (status, total_in, out)
        \<and> out \<noteq> [] \<and> (status = Z_STREAM_END \<or> status = Z_OK)
        \<and> fopen_ok e BinFile num offset
      \<longrightarrow> ret (extract_gzip_block e file offset num) = 0
          \<and> artifacts (extract_gzip_block e file offset num) \<noteq> []
          \<and> hd (artifacts (extract_gzip_block e file offset num))
              = \<lparr>kind = BinFile, block_num = num, at_offset = offset,
                 content = take MAX_DECOMP_SIZE out\<rparr>)"
proof -
  have cap: "0 < MAX_DECOMP_SIZE" "MAX_DECOMP_SIZE \<noteq> 0"
    by (simp_all add: MAX_DECOMP_SIZE_def)
  show ?thesis
    by (auto simp: extract_gzip_block_def save_block_def failed_def Let_def cap
        split: prod.splits)
qed

text \<open>Both streams are decoded at offset 0 as block 1 when \<open>main\<close> runs on them.\<close>

lemma letter_stream_run:
  "find_binary_start letter_stream 0 = 0
   \<and> extractor_main zlib_table letter_stream (replicate 4096 0)
       = Inr (\<lparr>block_count = 1,
               calls = [(0, 1, extract_gzip_block zlib_table letter_stream 0 1)]\<rparr>, False)"
  by (simp add: splitter_eval scanner_eval)

lemma cut_stream_run:
  "find_binary_start cut_stream 0 = 0
   \<and> extractor_main zlib_table cut_stream (replicate 4096 0)
       = Inr (\<lparr>block_count = 1,
               calls = [(0, 1, extract_gzip_block zlib_table cut_stream 0 1)]\<rparr>, False)"
  by (simp add: splitter_eval scanner_eval)

text \<open>Claim C10 at the complete stream and at the cut stream: the decoder returns 0 for
  both; the first run has written the letter to a \<open>.bin\<close> artifact, the second has written
  nothing and reported \<open>Z_BUF_ERROR\<close>.\<close>

theorem extract_gzip_block_ret_witness:
  "ret (extract_gzip_block zlib_table letter_stream 0 1) = 0
   \<and> artifacts (extract_gzip_block zlib_table letter_stream 0 1) \<noteq> []
   \<and> content (hd (artifacts (extract_gzip_block zlib_table letter_stream 0 1))) = [0x41]
   \<and> ret (extract_gzip_block zlib_table cut_stream 0 1) = 0
   \<and> artifacts (extract_gzip_block zlib_table cut_stream 0 1) = []
   \<and> reports (extract_gzip_block zlib_table cut_stream 0 1)
       = [DecompressionFailed 1 Z_BUF_ERROR]"
proof -
  have saved: "length (fread letter_stream 0 10) = 10
        \<and> fread letter_stream 0 10 ! 0 = 0x1F \<and> fread letter_stream 0 10 ! 1 = 0x8B
        \<and> inflateInit2 zlib_table = Z_OK
        \<and> inflate zlib_table (fread letter_stream 0 (1024 * 1024)) = (Z_STREAM_END, 21, [0x41])
        \<and> [0x41 :: byte] \<noteq> [] \<and> (Z_STREAM_END = Z_STREAM_END \<or> Z_STREAM_END = Z_OK)
        \<and> fopen_ok zlib_table BinFile 1 0"
    by (simp add: fread_def letter_stream_def zlib_table_def)
  have lost: "length (fread cut_stream 0 10) = 10
        \<and> fread cut_stream 0 10 ! 0 = 0x1F \<and> fread cut_stream 0 10 ! 1 = 0x8B
        \<and> inflateInit2 zlib_table = Z_OK
        \<and> inflate zlib_table (fread cut_stream 0 (1024 * 1024)) = (Z_BUF_ERROR, 12, [0x41])
        \<and> [0x41 :: byte] \<noteq> [] \<and> Z_BUF_ERROR \<noteq> Z_STREAM_END \<and> Z_BUF_ERROR \<noteq> Z_OK"
    by (simp add: fread_def cut_stream_def letter_stream_def empty_stream_def zlib_table_def
        Z_BUF_ERROR_def Z_OK_def Z_STREAM_END_def)
  have "take MAX_DECOMP_SIZE [0x41 :: byte] = [0x41]"
    by (simp add: MAX_DECOMP_SIZE_def)
  with extract_gzip_block_ret [of zlib_table letter_stream 0 1 Z_STREAM_END 21 "[0x41]"] saved
    extract_gzip_block_ret [of zlib_table cut_stream 0 1 Z_BUF_ERROR 12 "[0x41]"] lost
  show ?thesis
    by simp
qed

section \<open>The segment scanner of acd\_extractor.c\<close>

lemma visit_append:
  "visit e file (xs @ ys) st =
     (if snd (visit e file xs st) then visit e file xs st
      else visit e file ys (fst (visit e file xs st)))"
  by (induction xs arbitrary: st) (simp_all add: Let_def)

lemma scan_window_step:
  "i < bound \<Longrightarrow> i + 1 < length buffer \<Longrightarrow>
   scan_window e fl buffer offset bound i st =
     (if magic_at buffer i then
        let n = block_count st + 1;
            st' = \<lparr>block_count = n,
                   calls = calls st @ [(offset + i, n, extract_gzip_block e fl (offset + i) n)]\<rparr>
        in if n \<ge> 20 then Inr (st', True)
           else scan_window e fl buffer offset bound (i + 1) st'
      else scan_window e fl buffer offset bound (i + 1) st)"
  by (subst scan_window.simps) (simp add: magic_at_def Let_def)

lemma scan_window_visit:
  "bound < length buffer \<or> bound = 0 \<Longrightarrow>
   scan_window e fl buffer offset bound i st =
     Inr (visit e fl (map ((+) offset) (filter (magic_at buffer) [i ..< bound])) st)"
proof (induction e fl buffer offset bound i st rule: scan_window.induct)
  case (1 e fl buffer offset bound i st)
  show ?case
  proof (cases "i < bound")
    case False
    then show ?thesis
      by (subst scan_window.simps) simp
  next
    case True
    with "1.prems" have inb: "i < length buffer" "i + 1 < length buffer"
      by auto
    from True have upt: "[i ..< bound] = i # [i + 1 ..< bound]"
      by (simp add: upt_conv_Cons)
    note step = scan_window_step [OF True inb(2), of e fl offset st]
    show ?thesis
    proof (cases "magic_at buffer i")
      case False
      then have "buffer ! i \<noteq> 0x1F \<or> buffer ! (i + 1) \<noteq> 0x8B"
        by (simp add: magic_at_def)
      then have "scan_window e fl buffer offset bound (i + 1) st =
          Inr (visit e fl (map ((+) offset) (filter (magic_at buffer) [i + 1 ..< bound])) st)"
        using "1.IH"(2,3) True inb "1.prems" by (cases "buffer ! i = 0x1F") auto
      with False step upt show ?thesis
        by simp
    next
      case m: True
      define n where "n = block_count st + 1"
      define st' where "st' = \<lparr>block_count = n,
           calls = calls st @ [(offset + i, n, extract_gzip_block e fl (offset + i) n)]\<rparr>"
      show ?thesis
      proof (cases "n \<ge> 20")
        case True
        with m step upt show ?thesis
          by (simp add: n_def Let_def)
      next
        case False
        from m have "buffer ! i = 0x1F" "buffer ! (i + 1) = 0x8B"
          by (simp_all add: magic_at_def)
        with "1.IH"(1) [OF True _ _ _ _ n_def refl st'_def [unfolded n_def, folded n_def]] False inb "1.prems"
        have "scan_window e fl buffer offset bound (i + 1) st' =
          Inr (visit e fl (map ((+) offset) (filter (magic_at buffer) [i + 1 ..< bound])) st')"
          by (auto simp: n_def st'_def)
        with m False step upt show ?thesis
          by (simp add: n_def st'_def Let_def)
      qed
    qed
  qed
qed

lemma filter_shift_upt:
  "(\<And>i. i < n \<Longrightarrow> P i = Q (k + i)) \<Longrightarrow>
   map ((+) k) (filter P [0 ..< n]) = filter Q [k ..< k + n]"
proof -
  assume PQ: "\<And>i. i < n \<Longrightarrow> P i = Q (k + i)"
  have "[k ..< k + n] = map ((+) k) [0 ..< n]"
    by (induction n) simp_all
  then have "filter Q [k ..< k + n] = map ((+) k) (filter (Q \<circ> (+) k) [0 ..< n])"
    by (simp add: filter_map)
  also have "filter (Q \<circ> (+) k) [0 ..< n] = filter P [0 ..< n]"
    using PQ by (intro filter_cong) auto
  finally show ?thesis
    by simp
qed

lemma filter_upt_split:
  "k \<le> m \<Longrightarrow> m \<le> n \<Longrightarrow> filter Q [k ..< n] = filter Q [k ..< m] @ filter Q [m ..< n]"
  by (metis filter_append le_Suc_ex upt_add_eq_append)

lemma scan_loop_visit:
  "scan_loop e fl buffer offset st =
     Inr (visit e fl (filter (magic_at fl) [offset ..< length fl - 10]) st)"
proof (induction e fl buffer offset st rule: scan_loop.induct)
  case (1 e fl buffer offset st)
  show ?case
  proof (cases "int offset < int (length fl) - 10")
    case False
    then have "[offset ..< length fl - 10] = []"
      by simp
    with False show ?thesis
      by (subst scan_loop.simps) simp
  next
    case guard: True
    define window where "window = fread fl offset 4096"
    define bytes_read where "bytes_read = length window"
    define buffer' where "buffer' = window @ drop bytes_read buffer"
    define bound where "bound = bytes_read - 10"
    from guard have len: "10 < bytes_read" "bytes_read \<le> 4096" "offset + bytes_read \<le> length fl"
      by (auto simp: bytes_read_def window_def fread_def)
    then have sub: "size_sub bytes_read 10 = bound"
      unfolding bound_def by (intro size_sub_le) simp_all
    have inb: "bound < length buffer'"
      using len by (simp add: bound_def buffer'_def bytes_read_def)
    have same: "magic_at buffer' i = magic_at fl (offset + i)" if "i < bound" for i
    proof -
      from that len have "i < length window" "i + 1 < length window"
        by (simp_all add: bound_def bytes_read_def)
      then have "buffer' ! i = fl ! (offset + i)" "buffer' ! (i + 1) = fl ! (offset + (i + 1))"
        using len by (simp_all add: buffer'_def nth_append window_def fread_def)
      then show ?thesis
        by (simp add: magic_at_def)
    qed
    define near where "near = filter (magic_at fl) [offset ..< offset + bound]"
    define far where "far = filter (magic_at fl) [offset + bound ..< length fl - 10]"
    from same have "map ((+) offset) (filter (magic_at buffer') [0 ..< bound]) = near"
      unfolding near_def by (rule filter_shift_upt)
    with scan_window_visit [of bound buffer' e fl offset 0 st] inb
    have win: "scan_window e fl buffer' offset bound 0 st = Inr (visit e fl near st)"
      by simp
    from len have "offset + bound \<le> length fl - 10"
      by (simp add: bound_def)
    then have split: "filter (magic_at fl) [offset ..< length fl - 10] = near @ far"
      unfolding near_def far_def by (intro filter_upt_split) simp_all
    obtain st' stop where v: "visit e fl near st = (st', stop)"
      by (cases "visit e fl near st")
    have unfold: "scan_loop e fl buffer offset st =
        (if stop then Inr (st', True) else scan_loop e fl buffer' (offset + bound) st')"
      using guard win v sub
      by (subst scan_loop.simps)
         (simp add: Let_def window_def [symmetric] bytes_read_def [symmetric] buffer'_def [symmetric])
    show ?thesis
    proof (cases stop)
      case True
      with v have "visit e fl (near @ far) st = (st', True)"
        by (simp add: visit_append)
      with unfold True split show ?thesis
        by simp
    next
      case False
      with v have "visit e fl (near @ far) st = visit e fl far st'"
        by (simp add: visit_append)
      moreover from "1.IH" [OF guard window_def bytes_read_def buffer'_def, of "(st', stop)" st' stop]
        win v sub False
      have "scan_loop e fl buffer' (offset + bound) st' = Inr (visit e fl far st')"
        by (simp add: far_def)
      ultimately show ?thesis
        using unfold False split by simp
    qed
  qed
qed

lemma visit_calls:
  "block_count st < 20 \<Longrightarrow>
   calls (fst (visit e fl offs st)) =
     calls st @ map (\<lambda>(k, off). (off, k + 1, extract_gzip_block e fl off (k + 1)))
                  (enumerate (block_count st) (take (20 - block_count st) offs))"
proof (induction offs arbitrary: st)
  case Nil
  then show ?case by simp
next
  case (Cons off offs)
  show ?case
  proof (cases "block_count st + 1 \<ge> 20")
    case True
    with Cons.prems have "20 - block_count st = 1"
      by simp
    with True show ?thesis
      by (simp add: Let_def)
  next
    case False
    then have "20 - block_count st = Suc (20 - (block_count st + 1))"
      by simp
    with False Cons.IH [of "\<lparr>block_count = block_count st + 1,
        calls = calls st @ [(off, block_count st + 1,
                 extract_gzip_block e fl off (block_count st + 1))]\<rparr>"]
    show ?thesis
      by (simp add: Let_def)
  qed
qed



lemma scan_segments_visit:
  "scan_segments e fl buffer0 binary_start =
     Inr (visit e fl (magic_offsets fl binary_start) \<lparr>block_count = 0, calls = []\<rparr>)"
  by (simp add: scan_segments_def magic_offsets_def scan_loop_visit)




lemma two_candidates_offsets:
  "find_binary_start two_candidates 0 = 0 \<and> magic_offsets two_candidates 0 = [0, 2]"
  by (simp add: splitter_eval magic_offsets_def two_candidates_def magic_at_def upt_rec_numeral)


text \<open>Claim C4 as stated, that scanning visits every offset at which the signature is
  embedded in the binary region, fails: a signature at offset 11 of a 13-byte file is
  not visited.\<close>

theorem magic_in_tail_counterexample:
  "magic_at magic_in_tail 11 \<and> 11 + 1 < length magic_in_tail
   \<and> scan_segments rejecting_env magic_in_tail (replicate 4096 0) 0
       = Inr (\<lparr>block_count = 0, calls = []\<rparr>, False)"
  by (simp add: scan_segments_def scan_loop.simps scan_window.simps magic_in_tail_def
      fread_def size_sub_def Let_def magic_at_def)

text \<open>Claim C4, amended: scanning never faults, and the offsets it visits are exactly
  the signature offsets \<open>o\<close> with \<open>binary_start \<le> o\<close> and \<open>o + 10\<close> below the file size, up to
  the first 20 of them, in strictly increasing order and none twice. A signature within
  the last ten bytes of the file is not visited.\<close>

theorem scan_visits_magic_offsets:
  "\<exists>st stop. scan_segments e file buffer0 binary_start = Inr (st, stop)
     \<and> map fst (calls st) = take 20 (magic_offsets file binary_start)
     \<and> sorted_wrt (<) (map fst (calls st)) \<and> distinct (map fst (calls st))"
proof -
  define st0 :: scan_state where "st0 = \<lparr>block_count = 0, calls = []\<rparr>"
  define r where "r = visit e file (magic_offsets file binary_start) st0"
  have "calls (fst r) = map (\<lambda>(k, off). (off, k + 1, extract_gzip_block e file off (k + 1)))
                  (enumerate 0 (take 20 (magic_offsets file binary_start)))"
    using visit_calls [of st0 e "file" "magic_offsets file binary_start"]
    by (simp add: r_def st0_def)
  then have visited: "map fst (calls (fst r)) = take 20 (magic_offsets file binary_start)"
    by (simp add: comp_def case_prod_unfold map_snd_enumerate [unfolded comp_def])
  have "sorted_wrt (<) (magic_offsets file binary_start)"
    unfolding magic_offsets_def by (intro sorted_wrt_filter) simp
  then have sorted: "sorted_wrt (<) (take 20 (magic_offsets file binary_start))"
    by (rule sorted_wrt_take)
  have "distinct (take 20 (magic_offsets file binary_start))"
    by (simp add: magic_offsets_def)
  with visited sorted scan_segments_visit [of e "file" buffer0 binary_start]
  show ?thesis
    by (intro exI [of _ "fst r"] exI [of _ "snd r"]) (simp add: r_def st0_def)
qed

text \<open>The amended C4 at a file with two signatures, scanned from the offset \<open>main\<close>
  computes for it: offsets 0 and 2 are visited.\<close>

theorem scan_visits_magic_offsets_witness:
  "\<exists>st stop. scan_segments zlib_table two_candidates (replicate 4096 0)
       (find_binary_start two_candidates 0) = Inr (st, stop)
     \<and> map fst (calls st) = [0, 2]"
proof -
  from scan_visits_magic_offsets [of zlib_table two_candidates "replicate 4096 0"
      "find_binary_start two_candidates 0"]
  obtain st stop where
    "scan_segments zlib_table two_candidates (replicate 4096 0)
       (find_binary_start two_candidates 0) = Inr (st, stop)"
    "map fst (calls st) = take 20 (magic_offsets two_candidates
       (find_binary_start two_candidates 0))"
    by blast
  then show ?thesis
    by (intro exI [of _ st] exI [of _ stop]) (simp add: two_candidates_offsets)
qed

section \<open>The segment scanner of acd\_parser.c\<close>

lemma find_window_few_hits:
  "bound + 3 \<le> length buffer \<or> bound = 0 \<Longrightarrow>
   length hits + length (filter (magic_at buffer) [i ..< bound]) < 10 \<Longrightarrow>
   \<exists>hits'. find_window buffer offset bound i hits = Inr (hits', False)
     \<and> length hits' = length hits + length (filter (magic_at buffer) [i ..< bound])"
proof (induction buffer offset bound i hits rule: find_window.induct)
  case (1 buffer offset bound i hits)
  show ?case
  proof (cases "i < bound")
    case False
    then show ?thesis
      by (subst find_window.simps) simp
  next
    case True
    with "1.prems"(1) have inb: "\<not> length buffer \<le> i" "\<not> length buffer \<le> i + 1"
      "\<not> length buffer \<le> i + 3"
      by auto
    from True have upt: "[i ..< bound] = i # [i + 1 ..< bound]"
      by (simp add: upt_conv_Cons)
    show ?thesis
    proof (cases "magic_at buffer i")
      case False
      with "1.prems"(2) upt
      have few: "length hits + length (filter (magic_at buffer) [i + 1 ..< bound]) < 10"
        by simp
      from False have "buffer ! i \<noteq> 0x1F \<or> buffer ! (i + 1) \<noteq> 0x8B"
        by (simp add: magic_at_def)
      then have step: "find_window buffer offset bound i hits
          = find_window buffer offset bound (i + 1) hits"
        using True inb by (subst find_window.simps) auto
      have "\<exists>hits'. find_window buffer offset bound (i + 1) hits = Inr (hits', False)
          \<and> length hits' = length hits + length (filter (magic_at buffer) [i + 1 ..< bound])"
      proof (cases "buffer ! i = 0x1F")
        case first: True
        with False have "buffer ! (i + 1) \<noteq> 0x8B"
          by (simp add: magic_at_def)
        from "1.IH"(2) [OF True inb(1) first inb(2) this "1.prems"(1) few] show ?thesis .
      next
        case first: False
        from "1.IH"(3) [OF True inb(1) first "1.prems"(1) few] show ?thesis .
      qed
      with step upt False show ?thesis
        by simp
    next
      case m: True
      define hits' where "hits' = hits @ [\<lparr>block_offset = offset + i,
          cm_method = buffer ! (i + 2), flags = buffer ! (i + 3)\<rparr>]"
      from m "1.prems"(2) upt
      have few: "length hits' + length (filter (magic_at buffer) [i + 1 ..< bound]) < 10"
        by (simp add: hits'_def)
      then have more: "\<not> 10 \<le> length hits'"
        by simp
      from m have bytes: "buffer ! i = 0x1F" "buffer ! (i + 1) = 0x8B"
        by (simp_all add: magic_at_def)
      with True inb more have step: "find_window buffer offset bound i hits
          = find_window buffer offset bound (i + 1) hits'"
        by (subst find_window.simps) (simp add: hits'_def Let_def)
      from "1.IH"(1) [OF True inb(1) bytes(1) inb(2) bytes(2) inb(3) hits'_def more "1.prems"(1) few]
      show ?thesis
        using step upt m by (simp add: hits'_def)
    qed
  qed
qed

lemma find_blocks_loop_few_hits:
  "offset + 10 \<le> length fl \<Longrightarrow> length fl < 2 ^ 64 \<Longrightarrow>
   length hits + length (filter (magic_at fl) [offset ..< length fl - 10]) < 10 \<Longrightarrow>
   find_blocks_loop fuel fl buffer offset hits = None"
proof (induction fuel arbitrary: buffer offset hits)
  case 0
  show ?case by simp
next
  case (Suc fuel)
  define window where "window = fread fl offset 4096"
  define bytes_read where "bytes_read = length window"
  define buffer' where "buffer' = window @ drop bytes_read buffer"
  define bound where "bound = bytes_read - 10"
  from Suc.prems(1) have guard: "int offset < int (length fl) - 2"
    by simp
  from Suc.prems(1) have len: "10 \<le> bytes_read" "bytes_read \<le> 4096"
    "offset + bytes_read \<le> length fl"
    by (auto simp: bytes_read_def window_def fread_def)
  then have sub: "size_sub bytes_read 10 = bound"
    unfolding bound_def by (intro size_sub_le) simp_all
  have inb: "bound + 3 \<le> length buffer' \<or> bound = 0"
    using len by (auto simp: bound_def buffer'_def bytes_read_def)
  have same: "magic_at buffer' i = magic_at fl (offset + i)" if "i < bound" for i
  proof -
    from that len have "i < length window" "i + 1 < length window"
      by (simp_all add: bound_def bytes_read_def)
    then have "buffer' ! i = fl ! (offset + i)" "buffer' ! (i + 1) = fl ! (offset + (i + 1))"
      using len by (simp_all add: buffer'_def nth_append window_def fread_def)
    then show ?thesis
      by (simp add: magic_at_def)
  qed
  define near where "near = filter (magic_at fl) [offset ..< offset + bound]"
  define far where "far = filter (magic_at fl) [offset + bound ..< length fl - 10]"
  from same have "map ((+) offset) (filter (magic_at buffer') [0 ..< bound]) = near"
    unfolding near_def by (rule filter_shift_upt)
  then have near: "length (filter (magic_at buffer') [0 ..< bound]) = length near"
    by (metis length_map)
  from len have "offset + bound \<le> length fl - 10"
    by (simp add: bound_def)
  then have "filter (magic_at fl) [offset ..< length fl - 10] = near @ far"
    unfolding near_def far_def by (intro filter_upt_split) simp_all
  with Suc.prems(3) have few: "length hits + length near + length far < 10"
    by simp
  with near find_window_few_hits [OF inb, of hits 0 offset]
  obtain hits' where inner: "find_window buffer' offset bound 0 hits = Inr (hits', False)"
    and hits': "length hits' = length hits + length near"
    by auto
  from len Suc.prems(2) have next_offset: "(offset + bound) mod 2 ^ 64 = offset + bound"
    by (simp add: bound_def)
  from len have "offset + bound + 10 \<le> length fl"
    by (simp add: bound_def)
  moreover from few hits' have "length hits' + length far < 10"
    by simp
  ultimately have "find_blocks_loop fuel fl buffer' (offset + bound) hits' = None"
    unfolding far_def by (intro Suc.IH Suc.prems(2))
  with guard next_offset show ?case
    by (simp add: Let_def window_def [symmetric] bytes_read_def [symmetric]
        buffer'_def [symmetric] sub inner)
qed

text \<open>With at least ten bytes from \<open>binary_start\<close> on and fewer than ten signatures in
  the region, \<open>find_compressed_blocks\<close> is still running after any number of passes: it
  reaches offset \<open>file_size - 10\<close> and stays there.\<close>

lemma find_compressed_blocks_hangs:
  "binary_start + 10 \<le> length fl \<Longrightarrow> length fl < 2 ^ 64 \<Longrightarrow>
   length (magic_offsets fl binary_start) < 10 \<Longrightarrow>
   find_compressed_blocks fuel fl buffer0 binary_start = None"
  by (simp add: find_compressed_blocks_def magic_offsets_def find_blocks_loop_few_hits)

lemma find_blocks_loop_stuck: "find_blocks_loop fuel ten_bytes buffer 0 [] = None"
  by (rule find_blocks_loop_few_hits) (simp_all add: ten_bytes_def)

text \<open>Claim C7, that segment scanning terminates for every finite container, at a file
  of ten letters scanned from offset 0 by \<open>find_compressed_blocks\<close>: each pass reads the
  ten bytes, examines none and advances the offset by \<open>bytes_read - 10 = 0\<close>, so the loop is
  still running after any number of passes. (The scanner of acd\_extractor.c is the total
  function \<open>scan_loop\<close>: its guard is \<open>offset < file_size - 10\<close>, under which every pass
  advances.)\<close>

theorem find_compressed_blocks_never_returns:
  "find_compressed_blocks fuel ten_bytes buffer0 0 = None"
  by (simp add: find_compressed_blocks_def find_blocks_loop_stuck)

text \<open>For that file \<open>read_text_header\<close> leaves \<open>binary_start\<close> at 0, the offset the scan
  above starts from.\<close>

lemma ten_bytes_binary_start: "read_text_header ten_bytes 0 = 0"
  by (simp add: ten_bytes_def splitter_eval)

section \<open>The preamble splitters\<close>

lemma text_byte_iff: "text_byte b \<longleftrightarrow> \<not> control_byte b"
  by (auto simp: text_byte_def control_byte_def)

lemma control_byte_zero: "control_byte 0"
  by (simp add: control_byte_def)

lemma control_byte_feed: "\<not> control_byte 0x0A"
  by (simp add: control_byte_def)

lemma text_byte_nonzero: "text_byte b \<Longrightarrow> b \<noteq> 0"
  by (auto simp: text_byte_def)

lemma take_line_body:
  "0x0A \<notin> set body \<Longrightarrow> length body < n \<Longrightarrow> take_line n (body @ 0x0A # after) = body @ [0x0A]"
proof (induction body arbitrary: n)
  case Nil
  then show ?case by (cases n) simp_all
next
  case (Cons b body)
  then show ?case by (cases n) simp_all
qed

lemma take_line_text_line:
  "text_line l \<Longrightarrow> length l \<le> n \<Longrightarrow> take_line n (l @ after) = l"
proof -
  assume t: "text_line l" and n: "length l \<le> n"
  from t have l: "l = butlast l @ [0x0A]" and b: "0x0A \<notin> set (butlast l)"
    by (auto simp: text_line_def dest: append_butlast_last_id)
  from n l have "length (butlast l) < n"
    by (metis Suc_le_eq length_append_singleton)
  from take_line_body [OF b this, of after] l show ?thesis
    by (metis append.assoc append_Cons append_Nil)
qed

lemma is_binary_text: "list_all text_byte l \<Longrightarrow> \<not> is_binary l"
  by (induction l) (auto simp: text_byte_iff)

lemma not_text_text: "list_all text_byte l \<Longrightarrow> \<not> not_text l"
  by (induction l) (auto simp: text_byte_iff)

lemma is_binary_control:
  "list_all text_byte pre \<Longrightarrow> control_byte c \<Longrightarrow> c \<noteq> 0 \<Longrightarrow> is_binary (pre @ c # post)"
  by (induction pre) (auto simp: text_byte_iff control_byte_zero)

lemma not_text_control:
  "list_all text_byte pre \<Longrightarrow> 0x0A \<notin> set pre \<Longrightarrow> control_byte c \<Longrightarrow> c \<noteq> 0 \<Longrightarrow>
   not_text (pre @ c # post)"
  by (induction pre) (auto simp: text_byte_iff control_byte_zero control_byte_feed)

lemma take_line_feed_last:
  "take_line n rest = pre @ c # post \<Longrightarrow> 0x0A \<notin> set pre"
proof (induction n rest arbitrary: pre rule: take_line.induct)
  case (1 rest)
  then show ?case by simp
next
  case (2 n rest)
  show ?case
  proof (cases rest)
    case Nil
    with "2.prems" show ?thesis by simp
  next
    case (Cons b bs)
    show ?thesis
    proof (cases "b = 0x0A")
      case True
      with Cons "2.prems" show ?thesis
        by (cases pre) simp_all
    next
      case False
      with Cons "2.prems" "2.IH" [OF Cons False] show ?thesis
        by (cases pre) auto
    qed
  qed
qed

lemma find_binary_start_after_text:
  assumes "list_all (\<lambda>l. text_line l \<and> length l \<le> 1023) ls"
    and "take_line 1023 rest = pre @ c # post"
    and "list_all text_byte pre" and "control_byte c" and "0 \<notin> set (c # post)"
  shows "find_binary_start (front @ concat ls @ rest) (length front)
         = length front + length (concat ls)"
  using assms(1)
proof (induction ls arbitrary: front)
  case Nil
  define chunk where "chunk = take_line 1023 rest"
  have "rest \<noteq> []"
  proof
    assume "rest = []"
    with assms(2) have "take_line 1023 [] = pre @ c # post"
      by simp
    then show False
      by (simp add: take_line_numeral)
  qed
  then have line: "fgets 1024 (front @ rest) (length front)
      = Some (chunk, length front + length chunk)"
    by (simp add: fgets_def chunk_def Let_def)
  from assms(3,4,5) have binary: "is_binary chunk"
    by (simp add: chunk_def assms(2) is_binary_control)
  have "chunk = pre @ c # post"
    by (simp add: chunk_def assms(2))
  moreover from assms(3) have "0 \<notin> set pre"
    using text_byte_nonzero by (auto simp: list_all_iff)
  ultimately have "\<forall>b \<in> set chunk. b \<noteq> 0"
    using assms(5) by auto
  then have whole: "takeWhile (\<lambda>b. b \<noteq> 0) chunk = chunk"
    by (simp add: takeWhile_eq_all_conv)
  have len: "strlen chunk = length chunk"
    by (simp only: strlen_def whole)
  show ?case
    by (subst find_binary_start.simps)
       (simp only: concat.simps append_Nil line binary len option.case prod.case if_True, simp)
next
  case (Cons l ls)
  then have l: "text_line l" "length l \<le> 1023"
    and ls: "list_all (\<lambda>l. text_line l \<and> length l \<le> 1023) ls"
    by simp_all
  from l have "l \<noteq> []"
    by (simp add: text_line_def)
  then have line: "fgets 1024 (front @ concat (l # ls) @ rest) (length front)
      = Some (l, length front + length l)"
    using take_line_text_line [OF l, of "concat ls @ rest"] by (simp add: fgets_def Let_def)
  from l have plain: "is_binary l = False"
    by (simp add: is_binary_text text_line_def)
  from Cons.IH [OF ls, of "front @ l"]
  have later: "find_binary_start (front @ concat (l # ls) @ rest) (length front + length l)
      = length front + length (concat (l # ls))"
    by simp
  show ?case
    by (subst find_binary_start.simps)
       (simp only: line plain later option.case prod.case if_False)
qed

lemma read_text_header_after_text:
  assumes "list_all (\<lambda>l. text_line l \<and> length l \<le> 4095) ls"
    and "take_line 4095 rest = pre @ c # post"
    and "list_all text_byte pre" and "control_byte c" and "c \<noteq> 0"
  shows "read_text_header (front @ concat ls @ rest) (length front)
         = length front + length (concat ls)"
  using assms(1)
proof (induction ls arbitrary: front)
  case Nil
  define chunk where "chunk = take_line 4095 rest"
  have "rest \<noteq> []"
  proof
    assume "rest = []"
    with assms(2) have "take_line 4095 [] = pre @ c # post"
      by simp
    then show False
      by (simp add: take_line_numeral)
  qed
  then have line: "fgets 4096 (front @ rest) (length front)
      = Some (chunk, length front + length chunk)"
    by (simp add: fgets_def chunk_def Let_def)
  from assms(3,4,5) take_line_feed_last [OF assms(2)] have binary: "not_text chunk"
    by (simp add: chunk_def assms(2) not_text_control)
  show ?case
    by (subst read_text_header.simps)
       (simp only: concat.simps append_Nil line binary option.case prod.case if_True, simp)
next
  case (Cons l ls)
  then have l: "text_line l" "length l \<le> 4095"
    and ls: "list_all (\<lambda>l. text_line l \<and> length l \<le> 4095) ls"
    by simp_all
  from l have "l \<noteq> []"
    by (simp add: text_line_def)
  then have line: "fgets 4096 (front @ concat (l # ls) @ rest) (length front)
      = Some (l, length front + length l)"
    using take_line_text_line [OF l, of "concat ls @ rest"] by (simp add: fgets_def Let_def)
  from l have plain: "not_text l = False"
    by (simp add: not_text_text text_line_def)
  from Cons.IH [OF ls, of "front @ l"]
  have later: "read_text_header (front @ concat (l # ls) @ rest) (length front + length l)
      = length front + length (concat (l # ls))"
    by simp
  show ?case
    by (subst read_text_header.simps)
       (simp only: line plain later option.case prod.case if_False)
qed

text \<open>What the splitters do return. After text lines of at most 1023 bytes each, the
  splitter of acd\_extractor.c returns the offset of the next line when the first byte of
  that line that is not a text byte lies among its first 1023 bytes and neither it nor any
  byte after it, up to the end of the line or of the 1023 bytes, is zero. The splitter of
  acd\_parser.c, with 4095 for 1023, only needs that byte itself to be nonzero.\<close>

lemma find_binary_start_text_prefix:
  "list_all (\<lambda>l. text_line l \<and> length l \<le> 1023) ls \<Longrightarrow>
   take_line 1023 rest = pre @ c # post \<Longrightarrow> list_all text_byte pre \<Longrightarrow>
   control_byte c \<Longrightarrow> 0 \<notin> set (c # post) \<Longrightarrow>
   find_binary_start (concat ls @ rest) 0 = length (concat ls)"
  using find_binary_start_after_text [of ls rest pre c post "[]"] by simp

lemma read_text_header_text_prefix:
  "list_all (\<lambda>l. text_line l \<and> length l \<le> 4095) ls \<Longrightarrow>
   take_line 4095 rest = pre @ c # post \<Longrightarrow> list_all text_byte pre \<Longrightarrow>
   control_byte c \<Longrightarrow> c \<noteq> 0 \<Longrightarrow>
   read_text_header (concat ls @ rest) 0 = length (concat ls)"
  using read_text_header_after_text [of ls rest pre c post "[]"] by simp

text \<open>Claim C2, that the splitter returns the offset of the first line holding a byte
  below \<open>0x20\<close> other than carriage return, line feed and tab, the byte \<open>0x00\<close> included, at
  the file \<open>A\<close>, line feed, \<open>0x00\<close>, line feed: line 2 starts at offset 2 and holds a zero
  byte, and both splitters end with \<open>binary_start = 0\<close>, because their loops over the line
  stop at a zero byte.\<close>

theorem nul_line_not_detected:
  "find_binary_start nul_line_file 0 = 0 \<and> read_text_header nul_line_file 0 = 0"
  by (simp add: nul_line_file_def splitter_eval)

text \<open>With a control byte followed by a zero byte in line 2, the splitter of
  acd\_parser.c returns the start of the line, and the one of acd\_extractor.c, which
  subtracts \<open>strlen(line)\<close> from the position after the line, returns offset 5.\<close>

lemma control_before_nul_offset:
  "find_binary_start [0x41, 0x0A, 0x01, 0x00, 0x42, 0x0A] 0 = 5
   \<and> read_text_header [0x41, 0x0A, 0x01, 0x00, 0x42, 0x0A] 0 = 2"
  by (simp add: splitter_eval)

section \<open>Component recovery\<close>

lemma embedded_payload_marker: "find_comps embedded_payload 0 = Inr 1"
  by (simp add: embedded_payload_def example_payload_bytes replicate_numeral recovery_eval)

lemma embedded_payload_first:
  "parse_comps_database embedded_payload 1 [] = ([xvalve], None)"
  by (simp add: embedded_payload_def example_payload_bytes replicate_numeral recovery_eval
      xvalve_def)

lemma embedded_payload_second:
  "parse_comps_database embedded_payload 1 [xvalve] = ([xvalve, xvalve], None)"
  by (simp add: embedded_payload_def example_payload_bytes replicate_numeral recovery_eval
      xvalve_def)

text \<open>Claim C1, that component recovery returns exactly one component, with uid 5 and
  name \<open>XValve\<close>, for the example payload that starts with the marker \<open>Comps\<close>: the marker
  search of \<open>main\<close> finds the marker at offset 0, which is also its value for no marker
  found, and \<open>parse_comps_database\<close> is not called: no component is recovered.\<close>

theorem marker_at_offset_zero_not_parsed:
  "find_comps example_payload 0 = Inr 0 \<and> recover_components example_payload = ([], None)"
  by (simp add: example_payload_bytes recovery_eval)

text \<open>The same holds whatever follows the marker: a payload that starts with \<open>Comps\<close>
  yields no component.\<close>

lemma marker_first_never_parsed:
  "memeq data 0 (bytes_of ''Comps'') \<Longrightarrow> length data < 2 ^ 64 \<Longrightarrow>
   recover_components data = ([], None)"
proof -
  assume marker: "memeq data 0 (bytes_of ''Comps'')" and size: "length data < 2 ^ 64"
  have "length (bytes_of ''Comps'') = 5"
    by (simp add: bytes_of_def)
  with marker have "length (take 5 data) = 5"
    by (simp add: memeq_def)
  then have len: "5 \<le> length data"
    by simp
  with size have "size_sub (length data) 5 = length data - 5"
    by (intro size_sub_le)
  with marker len have "find_comps data 0 = Inr 0"
    by (subst find_comps.simps) auto
  then show ?thesis
    by (simp add: recover_components_def)
qed

text \<open>Called on the example payload all the same, \<open>parse_comps_database\<close> emits the
  component and then reads outside the 34 bytes, since \<open>data_size - record_size\<close> wraps
  around; behind one byte and followed by 100 zero bytes, the payload yields exactly the
  component.\<close>

lemma example_payload_parsed_directly:
  "parse_comps_database example_payload 0 [] = ([xvalve], Some OutOfBounds)"
  by (simp add: example_payload_bytes recovery_eval xvalve_def)

lemma find_name_length:
  "find_name data current j = Inr (Some (k, nm)) \<Longrightarrow> 3 < length nm \<and> length nm < 40"
proof (induction data current j rule: find_name.induct)
  case (1 data current j)
  show ?case
  proof (cases "j < current + 100 \<and> j < size_sub (length data) 50")
    case False
    with "1.prems" show ?thesis
      by (subst (asm) find_name.simps) simp
  next
    case guard: True
    show ?thesis
    proof (cases "length data \<le> j")
      case True
      with guard "1.prems" show ?thesis
        by (subst (asm) find_name.simps) simp
    next
      case inb: False
      show ?thesis
      proof (cases "data ! j \<ge> 0x41 \<and> data ! j \<le> 0x7A")
        case False
        with guard inb "1.prems" have "find_name data current (j + 1) = Inr (Some (k, nm))"
          by (subst (asm) find_name.simps) simp
        with "1.IH"(2) [OF guard inb False] show ?thesis
          by simp
      next
        case alpha: True
        show ?thesis
        proof (cases "read_string data j 50")
          case (Inl f)
          with guard inb alpha "1.prems" show ?thesis
            by (subst (asm) find_name.simps) simp
        next
          case (Inr potential_name)
          show ?thesis
          proof (cases "length potential_name > 3 \<and> length potential_name < 40")
            case True
            with guard inb alpha Inr "1.prems" show ?thesis
              by (subst (asm) find_name.simps) auto
          next
            case False
            with guard inb alpha Inr "1.prems"
            have "find_name data current (j + 1) = Inr (Some (k, nm))"
              by (subst (asm) find_name.simps) simp
            with "1.IH"(1) [OF guard inb alpha Inr False] show ?thesis
              by simp
          qed
        qed
      qed
    qed
  qed
qed

lemma parse_records_plausible:
  "list_all plausible comps \<Longrightarrow> list_all plausible (fst (parse_records data current comps))"
proof (induction data current comps rule: parse_records.induct)
  case (1 data current comps)
  show ?case
  proof (cases "current < size_sub (length data) 100 \<and> length comps < MAX_COMPONENTS")
    case False
    with "1.prems" show ?thesis
      by (subst parse_records.simps) (simp only: if_False fst_conv)
  next
    case guard: True
    show ?thesis
    proof (cases "read_uint32_le data current")
      case (Inl f)
      with guard "1.prems" show ?thesis
        by (subst parse_records.simps) simp
    next
      case (Inr potential_uid)
      show ?thesis
      proof (cases "potential_uid > 0 \<and> potential_uid < 0x10000")
        case False
        with guard Inr "1.prems" "1.IH"(3) [OF guard Inr False] show ?thesis
          by (subst parse_records.simps) auto
      next
        case ok: True
        show ?thesis
        proof (cases "find_name data current (current + 4)")
          case (Inl f)
          with guard Inr ok "1.prems" show ?thesis
            by (subst parse_records.simps) simp
        next
          case found: (Inr r)
          show ?thesis
          proof (cases r)
            case None
            with guard Inr ok found "1.prems" "1.IH"(1) [OF guard Inr ok found] show ?thesis
              by (subst parse_records.simps) auto
          next
            case (Some p)
            obtain j potential_name where p: "p = (j, potential_name)"
              by (cases p)
            define comps' where "comps' = comps @ [new_component potential_uid potential_name]"
            from found Some p have "3 < length potential_name \<and> length potential_name < 40"
              by (intro find_name_length [of data current "current + 4" j]) simp
            with ok have "plausible (new_component potential_uid potential_name)"
              by (simp add: plausible_def new_component_def word_greater_zero_iff)
            with "1.prems" have pl: "list_all plausible comps'"
              by (simp add: comps'_def)
            show ?thesis
            proof (cases "length comps' \<ge> 50")
              case True
              with guard Inr ok found Some p pl show ?thesis
                by (subst parse_records.simps) (simp add: comps'_def Let_def)
            next
              case False
              with "1.IH"(2) [OF guard Inr ok found Some p [symmetric] comps'_def False pl]
                guard Inr ok found Some p
              show ?thesis
                by (subst parse_records.simps) (simp add: comps'_def Let_def)
            qed
          qed
        qed
      qed
    qed
  qed
qed

lemma parse_comps_database_plausible:
  "list_all plausible comps \<Longrightarrow> list_all plausible (fst (parse_comps_database data start comps))"
  by (auto simp: parse_comps_database_def parse_records_plausible split: sum.splits prod.splits)

text \<open>Claim C9: every component that component recovery emits, whatever the payload and
  also when recovery ends in a fault, has a nonzero uid below 65536 and a name of more
  than 3 and fewer than 40 bytes.\<close>

theorem recovered_components_plausible:
  "c \<in> set (fst (recover_components data)) \<Longrightarrow>
   uid c \<noteq> 0 \<and> unat (uid c) < 65536 \<and> 3 < length (name c) \<and> length (name c) < 40"
proof -
  assume c: "c \<in> set (fst (recover_components data))"
  have "list_all plausible (fst (recover_components data))"
    using parse_comps_database_plausible [of "[]"]
    by (auto simp: recover_components_def split: sum.splits)
  with c have "plausible c"
    by (simp add: list_all_iff)
  then show ?thesis
    by (simp add: plausible_def word_less_nat_alt)
qed

text \<open>Claim C9 at the embedded example payload, which yields the component \<open>XValve\<close>.\<close>

theorem recovered_components_plausible_witness:
  "xvalve \<in> set (fst (recover_components embedded_payload))
   \<and> uid xvalve \<noteq> 0 \<and> unat (uid xvalve) < 65536
   \<and> 3 < length (name xvalve) \<and> length (name xvalve) < 40"
proof -
  have h: "xvalve \<in> set (fst (recover_components embedded_payload))"
    by (simp add: recover_components_def embedded_payload_marker embedded_payload_first
        del: One_nat_def)
  from h recovered_components_plausible [OF h] show ?thesis
    by blast
qed

lemma parse_records_exit:
  "\<not> (current < size_sub (length data) 100 \<and> length comps < MAX_COMPONENTS) \<Longrightarrow>
   parse_records data current comps = (comps, None)"
  by (subst parse_records.simps) auto

lemma parse_records_fault_uid:
  "current < size_sub (length data) 100 \<and> length comps < MAX_COMPONENTS \<Longrightarrow>
   read_uint32_le data current = Inl f \<Longrightarrow>
   parse_records data current comps = (comps, Some f)"
  by (subst parse_records.simps) simp

lemma parse_records_fault_name:
  "current < size_sub (length data) 100 \<and> length comps < MAX_COMPONENTS \<Longrightarrow>
   read_uint32_le data current = Inr u \<Longrightarrow> u > 0 \<and> u < 0x10000 \<Longrightarrow>
   find_name data current (current + 4) = Inl f \<Longrightarrow>
   parse_records data current comps = (comps, Some f)"
  by (subst parse_records.simps) simp

lemma parse_records_skip:
  "current < size_sub (length data) 100 \<and> length comps < MAX_COMPONENTS \<Longrightarrow>
   read_uint32_le data current = Inr u \<Longrightarrow>
   \<not> (u > 0 \<and> u < 0x10000) \<or> find_name data current (current + 4) = Inr None \<Longrightarrow>
   parse_records data current comps =
     (if length comps \<ge> 50 then (comps, None) else parse_records data (current + 4) comps)"
  by (subst parse_records.simps) auto

lemma parse_records_emit:
  "current < size_sub (length data) 100 \<and> length comps < MAX_COMPONENTS \<Longrightarrow>
   read_uint32_le data current = Inr u \<Longrightarrow> u > 0 \<and> u < 0x10000 \<Longrightarrow>
   find_name data current (current + 4) = Inr (Some (j, nm)) \<Longrightarrow>
   parse_records data current comps =
     (if length (comps @ [new_component u nm]) \<ge> 50 then (comps @ [new_component u nm], None)
      else parse_records data (j + length nm + 20 + 4) (comps @ [new_component u nm]))"
  by (subst parse_records.simps) (simp add: Let_def)

lemma parse_records_extends:
  "\<exists>new. fst (parse_records data current comps) = comps @ new"
proof (induction data current comps rule: parse_records.induct)
  case (1 data current comps)
  show ?case
  proof (cases "current < size_sub (length data) 100 \<and> length comps < MAX_COMPONENTS")
    case False
    then show ?thesis
      by (simp add: parse_records_exit)
  next
    case guard: True
    show ?thesis
    proof (cases "read_uint32_le data current")
      case (Inl f)
      with guard show ?thesis
        by (simp add: parse_records_fault_uid)
    next
      case (Inr u)
      show ?thesis
      proof (cases "u > 0 \<and> u < 0x10000")
        case False
        with guard Inr "1.IH"(3) [OF guard Inr False] show ?thesis
          by (simp add: parse_records_skip)
      next
        case ok: True
        show ?thesis
        proof (cases "find_name data current (current + 4)")
          case (Inl f)
          with guard Inr ok show ?thesis
            by (simp add: parse_records_fault_name)
        next
          case found: (Inr r)
          show ?thesis
          proof (cases r)
            case None
            with guard Inr found "1.IH"(1) [OF guard Inr ok found] show ?thesis
              by (simp add: parse_records_skip)
          next
            case (Some p)
            obtain j nm where p: "p = (j, nm)"
              by (cases p)
            define comps' where "comps' = comps @ [new_component u nm]"
            show ?thesis
            proof (cases "length comps' \<ge> 50")
              case True
              with guard Inr ok found Some p show ?thesis
                by (simp add: parse_records_emit comps'_def)
            next
              case False
              from "1.IH"(2) [OF guard Inr ok found Some p [symmetric] comps'_def False]
              obtain new where "fst (parse_records data (j + length nm + 20 + 4) comps')
                  = comps' @ new"
                by blast
              with False guard Inr ok found Some p show ?thesis
                by (simp add: parse_records_emit comps'_def)
            qed
          qed
        qed
      qed
    qed
  qed
qed

lemma parse_records_replay:
  "parse_records data current comps = (comps @ E, None) \<Longrightarrow> length (comps @ E) < 50 \<Longrightarrow>
   length comps' < 50 \<Longrightarrow>
   parse_records data current comps' = (comps' @ take (50 - length comps') E, None)"
proof (induction data current comps arbitrary: E comps' rule: parse_records.induct)
  case (1 data current comps)
  note run = "1.prems"(1) and short = "1.prems"(2) and short' = "1.prems"(3)
  have cap: "length comps < MAX_COMPONENTS" "length comps' < MAX_COMPONENTS"
    using short short' by (simp_all add: MAX_COMPONENTS_def)
  show ?case
  proof (cases "current < size_sub (length data) 100")
    case False
    with run have "E = []"
      by (simp add: parse_records_exit)
    with False show ?thesis
      by (simp add: parse_records_exit)
  next
    case True
    with cap have guard: "current < size_sub (length data) 100 \<and> length comps < MAX_COMPONENTS"
      and guard': "current < size_sub (length data) 100 \<and> length comps' < MAX_COMPONENTS"
      by simp_all
    show ?thesis
    proof (cases "read_uint32_le data current")
      case (Inl f)
      with guard run show ?thesis
        by (simp add: parse_records_fault_uid)
    next
      case (Inr u)
      show ?thesis
      proof (cases "u > 0 \<and> u < 0x10000")
        case False
        with guard Inr run short
        have "parse_records data (current + 4) comps = (comps @ E, None)"
          by (simp add: parse_records_skip)
        from "1.IH"(3) [OF guard Inr False _ this short short'] short
        have "parse_records data (current + 4) comps'
            = (comps' @ take (50 - length comps') E, None)"
          by simp
        with guard' Inr False short' show ?thesis
          by (simp add: parse_records_skip)
      next
        case ok: True
        show ?thesis
        proof (cases "find_name data current (current + 4)")
          case (Inl f)
          with guard Inr ok run show ?thesis
            by (simp add: parse_records_fault_name)
        next
          case found: (Inr r)
          show ?thesis
          proof (cases r)
            case None
            with guard Inr found run short
            have "parse_records data (current + 4) comps = (comps @ E, None)"
              by (simp add: parse_records_skip)
            from "1.IH"(1) [OF guard Inr ok found None _ this short short'] short
            have "parse_records data (current + 4) comps'
                = (comps' @ take (50 - length comps') E, None)"
              by simp
            with guard' Inr found None short' show ?thesis
              by (simp add: parse_records_skip)
          next
            case (Some p)
            obtain j nm where p: "p = (j, nm)"
              by (cases p)
            define c where "c = new_component u nm"
            define next_pos where "next_pos = j + length nm + 20 + 4"
            from found Some p have name: "find_name data current (current + 4) = Inr (Some (j, nm))"
              by simp
            note emit = parse_records_emit [OF _ Inr ok name, folded c_def next_pos_def]
            have first: "parse_records data next_pos (comps @ [c]) = (comps @ E, None)"
              and len1: "\<not> 50 \<le> length (comps @ [c])"
            proof -
              from emit [OF guard] run short show "\<not> 50 \<le> length (comps @ [c])"
                by (auto split: if_splits)
              with emit [OF guard] run
              show "parse_records data next_pos (comps @ [c]) = (comps @ E, None)"
                by simp
            qed
            from parse_records_extends [of data next_pos "comps @ [c]"] first
            obtain E1 where E: "E = c # E1"
              by auto
            show ?thesis
            proof (cases "50 \<le> length (comps' @ [c])")
              case True
              with short' have "50 - length comps' = 1"
                by simp
              with True emit [OF guard'] E show ?thesis
                by simp
            next
              case False
              from first E have "parse_records data next_pos (comps @ [c]) = ((comps @ [c]) @ E1, None)"
                by simp
              moreover from short E have "length ((comps @ [c]) @ E1) < 50"
                by simp
              moreover from False have "length (comps' @ [c]) < 50"
                by simp
              ultimately have "parse_records data next_pos (comps' @ [c])
                  = ((comps' @ [c]) @ take (50 - length (comps' @ [c])) E1, None)"
                using "1.IH"(2) [OF guard Inr ok found Some p [symmetric] _ len1]
                by (simp add: c_def next_pos_def)
              moreover from False have "50 - length comps' = Suc (50 - length (comps' @ [c]))"
                by simp
              ultimately show ?thesis
                using False emit [OF guard'] E by simp
            qed
          qed
        qed
      qed
    qed
  qed
qed

text \<open>Claim C8 as stated, that invoking recovery twice on the same payload within one
  process run produces the same component sequence both times, fails: the second
  invocation on the embedded example payload starts from the global list the first one
  left and returns a different sequence.\<close>

theorem second_recovery_differs_counterexample:
  "fst (parse_comps_database embedded_payload 1 (fst (parse_comps_database embedded_payload 1 [])))
   \<noteq> fst (parse_comps_database embedded_payload 1 [])"
  by (simp add: embedded_payload_first embedded_payload_second del: One_nat_def)

text \<open>Claim C8, amended: recovery is a function of the payload and of the global
  component list it is entered with, which it never resets. After a first invocation
  from the empty list that ended without a fault and recovered fewer than 50 components,
  a second invocation on the same payload returns the first sequence followed by the same
  components once more, cut at 50 components in total.\<close>

theorem second_recovery_repeats:
  "parse_comps_database data start [] = (first, None) \<Longrightarrow> length first < 50 \<Longrightarrow>
   parse_comps_database data start first = (first @ take (50 - length first) first, None)"
proof -
  assume run: "parse_comps_database data start [] = (first, None)" and short: "length first < 50"
  show ?thesis
  proof (cases "read_fields data (start + 6) []")
    case (Inl f)
    with run show ?thesis
      by (simp add: parse_comps_database_def)
  next
    case (Inr r)
    obtain offset field_names where r: "r = (offset, field_names)"
      by (cases r)
    show ?thesis
    proof (cases "find_sections data offset 0")
      case (Inl f)
      with run Inr r show ?thesis
        by (simp add: parse_comps_database_def)
    next
      case sections: (Inr q)
      obtain dat_offset idx_offset where q: "q = (dat_offset, idx_offset)"
        by (cases q)
      show ?thesis
      proof (cases "dat_offset > 0")
        case False
        with run Inr r sections q show ?thesis
          by (simp add: parse_comps_database_def)
      next
        case True
        with run Inr r sections q have "parse_records data dat_offset [] = ([] @ first, None)"
          by (simp add: parse_comps_database_def)
        from parse_records_replay [OF this _ short] short
        have "parse_records data dat_offset first = (first @ take (50 - length first) first, None)"
          by simp
        with True Inr r sections q show ?thesis
          by (simp add: parse_comps_database_def)
      qed
    qed
  qed
qed

text \<open>The amended C8 at the embedded example payload: the second invocation returns the
  component twice.\<close>

theorem second_recovery_repeats_witness:
  "parse_comps_database embedded_payload 1 [] = ([xvalve], None) \<and> length [xvalve] < 50
   \<and> parse_comps_database embedded_payload 1 [xvalve] = ([xvalve, xvalve], None)"
proof -
  have h1: "parse_comps_database embedded_payload 1 [] = ([xvalve], None)"
    by (rule embedded_payload_first)
  have h2: "length [xvalve] < 50"
    by simp
  from second_recovery_repeats [OF h1 h2] h1 show ?thesis
    by simp
qed

text \<open>Whatever list recovery is entered with, the components of that list stay in
  place at the front of the result.\<close>

theorem recovery_keeps_earlier_components:
  "take (length comps) (fst (parse_comps_database data start comps)) = comps"
proof -
  have "\<exists>new. fst (parse_comps_database data start comps) = comps @ new"
    using parse_records_extends
    by (auto simp: parse_comps_database_def split: sum.splits prod.splits)
  then show ?thesis
    by auto
qed

end
